theory Spec2Isabelle
  imports
    Complex_Main
    "HOL-Library.Char_ord"
    "HOL-Library.List_Lexorder"
    "HOL-Library.Log_Nat"
    "HOL-Library.Product_Lexorder"
begin

section \<open>River crossing: the missionaries-and-cannibals A* solver\<close>

text \<open>
  A shallow embedding of \<^verbatim>\<open>missionary_cannibal_a_star.py\<close> and of the route
  \<^verbatim>\<open>missionary_cannibal\<close> of \<^verbatim>\<open>app.py\<close>.

  Python's unbounded integers are \<open>int\<close>. The depth \<open>g\<close> and the counter
  \<open>num_generated\<close> start at 0 and 1 and are only ever incremented, so they are \<open>nat\<close>.
  A state is the 5-tuple \<open>(M_left, C_left, M_right, C_right, boat_pos)\<close>, with the boat
  position a string as in the source. Tuples, integers and strings are compared by Python
  as the lexicographic orders of HOL-Library compare them.
\<close>

subsection \<open>States, legality and successors\<close>

type_synonym state = "int \<times> int \<times> int \<times> int \<times> string"

definition is_valid_state :: "int \<Rightarrow> int \<Rightarrow> int \<Rightarrow> int \<Rightarrow> int \<Rightarrow> int \<Rightarrow> bool" where
  "is_valid_state M_left C_left M_right C_right M_total C_total =
     (if M_left < 0 \<or> C_left < 0 \<or> M_right < 0 \<or> C_right < 0 then False
      else if M_left > M_total \<or> C_left > C_total \<or> M_right > M_total \<or> C_right > C_total
        then False
      else if M_left > 0 \<and> C_left > M_left then False
      else if M_right > 0 \<and> C_right > M_right then False
      else True)"

text \<open>
  The two nested \<^verbatim>\<open>for ... in range(boat_capacity + 1)\<close> loops; \<open>[0..n]\<close> is the
  list of the integers from 0 to \<open>n\<close>, empty when \<open>n\<close> is negative, as the range is.
\<close>

definition get_possible_moves :: "int \<Rightarrow> (int \<times> int) list" where
  "get_possible_moves boat_capacity =
     concat (map (\<lambda>i. concat (map (\<lambda>j.
        if i + j \<le> boat_capacity \<and> i + j > 0 then [(i, j)] else [])
        [0..boat_capacity])) [0..boat_capacity])"

fun get_next_states :: "state \<Rightarrow> int \<Rightarrow> int \<Rightarrow> int \<Rightarrow> state list" where
  "get_next_states (M_left, C_left, M_right, C_right, boat_pos) M_total C_total boat_capacity =
     (let possible_moves = get_possible_moves boat_capacity in
      if boat_pos = ''left'' then
        concat (map (\<lambda>(M_move, C_move).
          let new_M_left = M_left - M_move;
              new_C_left = C_left - C_move;
              new_M_right = M_right + M_move;
              new_C_right = C_right + C_move
          in if is_valid_state new_M_left new_C_left new_M_right new_C_right M_total C_total
             then [(new_M_left, new_C_left, new_M_right, new_C_right, ''right'')] else [])
          possible_moves)
      else
        concat (map (\<lambda>(M_move, C_move).
          let new_M_left = M_left + M_move;
              new_C_left = C_left + C_move;
              new_M_right = M_right - M_move;
              new_C_right = C_right - C_move
          in if is_valid_state new_M_left new_C_left new_M_right new_C_right M_total C_total
             then [(new_M_left, new_C_left, new_M_right, new_C_right, ''left'')] else [])
          possible_moves))"

subsection \<open>The heuristic\<close>

datatype py_error = KeyError | IndexError | OverflowError | TypeError

text \<open>
  \<^verbatim>\<open>people_left / 2.0\<close> converts the integer to a double first. The conversion rounds to
  53 significant bits, a tie going to the even significand, and raises \<^verbatim>\<open>OverflowError\<close>
  when the rounded value is \<open>2^1024\<close> or more. The double of an integer is an integer;
  \<open>float_of_int\<close> gives it as one. (\<open>bitlen a\<close> is the number of bits of \<open>a\<close>, and
  \<open>round_significand a e\<close> is \<open>a / 2^e\<close> rounded to an integer, a tie going to the even
  one, for \<open>e\<close> at least 1.)
\<close>

definition round_significand :: "int \<Rightarrow> nat \<Rightarrow> int" where
  "round_significand a e =
     (let q = a div 2 ^ e;
          r = a mod 2 ^ e;
          half = 2 ^ (e - 1)
      in if half < r \<or> (r = half \<and> odd q) then q + 1 else q)"

definition float_of_int :: "int \<Rightarrow> py_error + int" where
  "float_of_int n =
     (let a = \<bar>n\<bar>; e = bitlen a - 53 in
      if e \<le> 0 then Inr n
      else
        let x = round_significand a (nat e) * 2 ^ nat e
        in if 2 ^ 1024 \<le> x then Inl OverflowError else Inr (sgn n * x))"

text \<open>
  \<^verbatim>\<open>math.ceil(people_left / 2.0)\<close>: halving a double that is an integer is exact, and
  \<^verbatim>\<open>math.ceil\<close> returns the integer ceiling.
\<close>

definition ceil_half :: "int \<Rightarrow> py_error + int" where
  "ceil_half people_left =
     (case float_of_int people_left of
        Inl e \<Rightarrow> Inl e
      | Inr x \<Rightarrow> Inr \<lceil>real_of_int x / 2\<rceil>)"

fun heuristic :: "state \<Rightarrow> int \<Rightarrow> int \<Rightarrow> py_error + int" where
  "heuristic (M_left, C_left, M_right, C_right, boat_pos) M_total C_total =
     (let people_left = M_left + C_left in ceil_half people_left)"

subsection \<open>The search\<close>

text \<open>
  A frontier entry is the tuple \<open>(f, g, state)\<close>. \<^verbatim>\<open>heapq\<close> keeps the entries in a binary
  heap and \<^verbatim>\<open>heappop\<close> returns the least one in Python's tuple order, which is total on
  these entries; entries that compare equal are the same value. So the value popped depends
  only on which entries are in the heap. The model keeps the entries in the order of their
  insertion and removes the least one.
\<close>

type_synonym entry = "int \<times> nat \<times> state"

definition heappush :: "entry list \<Rightarrow> entry \<Rightarrow> entry list" where
  "heappush heap item = heap @ [item]"

fun heappop :: "entry list \<Rightarrow> py_error + (entry \<times> entry list)" where
  "heappop [] = Inl IndexError"
| "heappop (x # xs) = (let m = fold min xs x in Inr (m, remove1 m (x # xs)))"

record search =
  open_heap :: "entry list"
  g_cost :: "state \<rightharpoonup> nat"
  parent :: "state \<rightharpoonup> state option"
  visited :: "state set"
  num_generated :: nat

text \<open>
  The path reconstruction \<^verbatim>\<open>while current is not None: path.append(current);
  current = parent[current]\<close>. A missing key raises \<^verbatim>\<open>KeyError\<close>; on a cyclic parent map
  the loop would not return, which is the value \<open>None\<close> here.
\<close>

partial_function (option) reconstruct ::
  "(state \<rightharpoonup> state option) \<Rightarrow> state option \<Rightarrow> state list \<Rightarrow> (py_error + state list) option"
where
  "reconstruct par current path =
     (case current of
        None \<Rightarrow> Some (Inr path)
      | Some c \<Rightarrow>
          (case par c of
             None \<Rightarrow> Some (Inl KeyError)
           | Some nxt \<Rightarrow> reconstruct par nxt (path @ [c])))"

text \<open>
  The body of \<^verbatim>\<open>for nxt in get_next_states(...)\<close>, for one \<open>nxt\<close>. The heuristic is
  called after the two dictionaries are written; when it raises, the search ends with the
  error.
\<close>

definition relax :: "int \<Rightarrow> int \<Rightarrow> nat \<Rightarrow> state \<Rightarrow> state \<Rightarrow> search \<Rightarrow> py_error + search" where
  "relax M_total C_total g current nxt \<sigma> =
     (let tentative_g = g + 1 in
      if (case g_cost \<sigma> nxt of None \<Rightarrow> True | Some c \<Rightarrow> tentative_g < c) then
        case heuristic nxt M_total C_total of
          Inl e \<Rightarrow> Inl e
        | Inr h \<Rightarrow>
            let f = int tentative_g + h
            in Inr (\<sigma>\<lparr> g_cost := (g_cost \<sigma>)(nxt \<mapsto> tentative_g),
                      parent := (parent \<sigma>)(nxt \<mapsto> Some current),
                      open_heap := heappush (open_heap \<sigma>) (f, tentative_g, nxt),
                      num_generated := num_generated \<sigma> + 1 \<rparr>)
      else Inr \<sigma>)"

text \<open>The \<^verbatim>\<open>for\<close> loop over the successors.\<close>

fun relax_all :: "int \<Rightarrow> int \<Rightarrow> nat \<Rightarrow> state \<Rightarrow> state list \<Rightarrow> search \<Rightarrow> py_error + search" where
  "relax_all M_total C_total g current [] \<sigma> = Inr \<sigma>"
| "relax_all M_total C_total g current (nxt # rest) \<sigma> =
     (case relax M_total C_total g current nxt \<sigma> of
        Inl e \<Rightarrow> Inl e
      | Inr \<sigma>' \<Rightarrow> relax_all M_total C_total g current rest \<sigma>')"

type_synonym search_result = "(py_error + (state list option \<times> nat)) option"

text \<open>
  One pass of \<^verbatim>\<open>while open_heap\<close>, the test of the loop included: \<open>Inl\<close> is the
  state the next pass starts from (after \<^verbatim>\<open>continue\<close> or at the end of the body),
  \<open>Inr\<close> is what the function returns, at the \<^verbatim>\<open>return\<close> in the body or, when the
  test fails, at the one after the loop.
\<close>

definition astar_iter :: "int \<Rightarrow> int \<Rightarrow> state \<Rightarrow> int \<Rightarrow> search \<Rightarrow> search + search_result" where
  "astar_iter M_total C_total goal_state boat_capacity \<sigma> =
     (if open_heap \<sigma> = [] then Inr (Some (Inr (None, num_generated \<sigma>)))
      else
        case heappop (open_heap \<sigma>) of
          Inl e \<Rightarrow> Inr (Some (Inl e))
        | Inr ((f, g, current), rest) \<Rightarrow>
            if current \<in> visited \<sigma> then Inl (\<sigma>\<lparr>open_heap := rest\<rparr>)
            else
              let \<sigma> = \<sigma>\<lparr>open_heap := rest, visited := insert current (visited \<sigma>)\<rparr> in
              if current = goal_state then
                Inr (case reconstruct (parent \<sigma>) (Some current) [] of
                       None \<Rightarrow> None
                     | Some (Inl e) \<Rightarrow> Some (Inl e)
                     | Some (Inr path) \<Rightarrow> Some (Inr (Some (rev path), num_generated \<sigma>)))
              else
                case relax_all M_total C_total g current
                       (get_next_states current M_total C_total boat_capacity) \<sigma> of
                  Inl e \<Rightarrow> Inr (Some (Inl e))
                | Inr \<sigma>' \<Rightarrow> Inl \<sigma>')"

declare reconstruct.simps [code]

subsection \<open>The loop terminates\<close>

text \<open>
  Every successor is a legal state, and the legal states for given totals are finitely
  many. An entry is pushed only for a state that has no cost yet or whose cost drops, so a
  pass of the loop either makes the number of legal states without a cost smaller, or keeps
  it and makes the sum of the costs smaller, or keeps both and shortens the heap.
\<close>

definition universe :: "int \<Rightarrow> int \<Rightarrow> state set" where
  "universe M_total C_total =
     {0..M_total} \<times> {0..C_total} \<times> {0..M_total} \<times> {0..C_total} \<times> {''left'', ''right''}"

definition unknown :: "int \<Rightarrow> int \<Rightarrow> search \<Rightarrow> nat" where
  "unknown M_total C_total \<sigma> = card (universe M_total C_total - dom (g_cost \<sigma>))"

definition depth_sum :: "int \<Rightarrow> int \<Rightarrow> search \<Rightarrow> nat" where
  "depth_sum M_total C_total \<sigma> =
     (\<Sum>s \<in> universe M_total C_total. case g_cost \<sigma> s of None \<Rightarrow> 0 | Some g \<Rightarrow> g)"

lemma finite_universe: "finite (universe M C)"
  by (simp add: universe_def)

lemma next_in_universe:
  "t \<in> set (get_next_states s M C cap) \<Longrightarrow> t \<in> universe M C"
  by (cases s) (auto simp: universe_def Let_def is_valid_state_def split: if_splits)

definition progress :: "int \<Rightarrow> int \<Rightarrow> (search \<times> search) set" where
  "progress M C = inv_image (less_than <*lex*> less_than <*lex*> less_than)
     (\<lambda>\<sigma>. (unknown M C \<sigma>, depth_sum M C \<sigma>, length (open_heap \<sigma>)))"

lemma relax_progress:
  assumes "nxt \<in> universe M C" and "relax M C g cur nxt \<sigma> = Inr \<sigma>'"
  shows "\<sigma>' = \<sigma> \<or>
         (unknown M C \<sigma>' < unknown M C \<sigma> \<or>
          unknown M C \<sigma>' = unknown M C \<sigma> \<and> depth_sum M C \<sigma>' < depth_sum M C \<sigma>)"
proof (cases "case g_cost \<sigma> nxt of None \<Rightarrow> True | Some c \<Rightarrow> g + 1 < c")
  case False
  then have "relax M C g cur nxt \<sigma> = Inr \<sigma>"
    unfolding relax_def Let_def by (rule if_not_P)
  then show ?thesis using assms(2) by simp
next
  case True
  then have "relax M C g cur nxt \<sigma> =
      (case heuristic nxt M C of
          Inl e \<Rightarrow> Inl e
        | Inr h \<Rightarrow>
            Inr (\<sigma>\<lparr> g_cost := (g_cost \<sigma>)(nxt \<mapsto> g + 1),
                      parent := (parent \<sigma>)(nxt \<mapsto> Some cur),
                      open_heap := heappush (open_heap \<sigma>) (int (g + 1) + h, g + 1, nxt),
                      num_generated := num_generated \<sigma> + 1 \<rparr>))"
    unfolding relax_def Let_def by (rule if_P)
  then obtain h where \<sigma>': "\<sigma>' = \<sigma>\<lparr> g_cost := (g_cost \<sigma>)(nxt \<mapsto> g + 1),
                      parent := (parent \<sigma>)(nxt \<mapsto> Some cur),
                      open_heap := heappush (open_heap \<sigma>) (int (g + 1) + h, g + 1, nxt),
                      num_generated := num_generated \<sigma> + 1 \<rparr>"
    using assms(2) by (cases "heuristic nxt M C") auto
  have g': "g_cost \<sigma>' = (g_cost \<sigma>)(nxt \<mapsto> g + 1)"
    by (simp add: \<sigma>')
  show ?thesis
  proof (cases "g_cost \<sigma> nxt")
    case None
    have "universe M C - dom ((g_cost \<sigma>)(nxt \<mapsto> g + 1))
        = (universe M C - dom (g_cost \<sigma>)) - {nxt}"
      by auto
    moreover have "nxt \<in> universe M C - dom (g_cost \<sigma>)"
      using assms(1) None by auto
    moreover have "finite (universe M C - dom (g_cost \<sigma>))"
      using finite_universe by simp
    ultimately have "card (universe M C - dom ((g_cost \<sigma>)(nxt \<mapsto> g + 1)))
        < card (universe M C - dom (g_cost \<sigma>))"
      by (metis card_Diff1_less)
    then show ?thesis
      by (simp add: unknown_def g')
  next
    case (Some c)
    then have lt: "g + 1 < c" using True by simp
    let ?v = "\<lambda>m s. case (m :: state \<rightharpoonup> nat) s of None \<Rightarrow> (0::nat) | Some g \<Rightarrow> g"
    let ?m' = "(g_cost \<sigma>)(nxt \<mapsto> g + 1)"
    have dom: "dom ?m' = dom (g_cost \<sigma>)"
      using Some by auto
    have fin: "finite (universe M C)" by (rule finite_universe)
    have "sum (?v ?m') (universe M C) = ?v ?m' nxt + sum (?v ?m') (universe M C - {nxt})"
      using fin assms(1) by (rule sum.remove)
    moreover have "sum (?v (g_cost \<sigma>)) (universe M C)
        = ?v (g_cost \<sigma>) nxt + sum (?v (g_cost \<sigma>)) (universe M C - {nxt})"
      using fin assms(1) by (rule sum.remove)
    moreover have "sum (?v ?m') (universe M C - {nxt})
        = sum (?v (g_cost \<sigma>)) (universe M C - {nxt})"
      by (rule sum.cong) auto
    moreover have "?v ?m' nxt < ?v (g_cost \<sigma>) nxt"
      using Some lt by simp
    ultimately have "sum (?v ?m') (universe M C) < sum (?v (g_cost \<sigma>)) (universe M C)"
      by linarith
    then show ?thesis
      using dom by (simp add: unknown_def depth_sum_def g')
  qed
qed

lemma relax_all_progress:
  assumes "set xs \<subseteq> universe M C"
  shows "relax_all M C g cur xs \<sigma> = Inr \<sigma>' \<Longrightarrow>
         \<sigma>' = \<sigma> \<or>
         (unknown M C \<sigma>' < unknown M C \<sigma> \<or>
          unknown M C \<sigma>' = unknown M C \<sigma> \<and> depth_sum M C \<sigma>' < depth_sum M C \<sigma>)"
  using assms
proof (induction xs arbitrary: \<sigma>)
  case Nil
  then show ?case by simp
next
  case (Cons x xs)
  have x: "x \<in> universe M C" and xs: "set xs \<subseteq> universe M C"
    using Cons.prems by auto
  from Cons.prems(1) obtain \<sigma>1 where 1: "relax M C g cur x \<sigma> = Inr \<sigma>1"
    and 2: "relax_all M C g cur xs \<sigma>1 = Inr \<sigma>'"
    by (cases "relax M C g cur x \<sigma>") auto
  show ?case
    using relax_progress [OF x 1] Cons.IH [OF 2 xs] by auto
qed

lemma heappop_length:
  "heappop h = Inr (e, rest) \<Longrightarrow> length rest < length h"
proof (cases h)
  case Nil
  then show "heappop h = Inr (e, rest) \<Longrightarrow> length rest < length h" by simp
next
  case (Cons x xs)
  have "fold min xs x = Min (set (x # xs))"
    by (simp only: Min.set_eq_fold)
  then have "fold min xs x \<in> set (x # xs)"
    using Min_in [of "set (x # xs)"] by simp
  then have "length (remove1 (fold min xs x) (x # xs)) < length (x # xs)"
    by (simp only: length_remove1) simp
  then show "heappop h = Inr (e, rest) \<Longrightarrow> length rest < length h"
    using Cons by (auto simp: Let_def)
qed

lemma astar_iter_progress:
  assumes "astar_iter M C goal cap \<sigma> = Inl \<sigma>'"
  shows "(\<sigma>', \<sigma>) \<in> progress M C"
proof (cases "heappop (open_heap \<sigma>)")
  case (Inl e)
  then show ?thesis using assms by (simp add: astar_iter_def split: if_splits)
next
  case (Inr r)
  obtain f g current rest where r: "r = ((f, g, current), rest)"
    by (cases r) auto
  have ne: "open_heap \<sigma> \<noteq> []"
    using Inr by auto
  have len: "length rest < length (open_heap \<sigma>)"
    using Inr r heappop_length by blast
  show ?thesis
  proof (cases "current \<in> visited \<sigma>")
    case True
    then have "\<sigma>' = \<sigma>\<lparr>open_heap := rest\<rparr>"
      using assms Inr r ne by (simp add: astar_iter_def)
    then show ?thesis
      using len by (simp add: progress_def unknown_def depth_sum_def)
  next
    case False
    let ?\<sigma>1 = "\<sigma>\<lparr>open_heap := rest, visited := insert current (visited \<sigma>)\<rparr>"
    let ?xs = "get_next_states current M C cap"
    have \<sigma>': "relax_all M C g current ?xs ?\<sigma>1 = Inr \<sigma>'"
      using assms Inr r False ne
      by (simp add: astar_iter_def Let_def split: if_splits sum.splits)
    have sub: "set ?xs \<subseteq> universe M C"
      using next_in_universe by blast
    have "(?\<sigma>1, \<sigma>) \<in> progress M C"
      using len by (simp add: progress_def unknown_def depth_sum_def)
    moreover have "unknown M C ?\<sigma>1 = unknown M C \<sigma>" "depth_sum M C ?\<sigma>1 = depth_sum M C \<sigma>"
      by (simp_all add: unknown_def depth_sum_def)
    ultimately show ?thesis
      using relax_all_progress [OF sub \<sigma>']
      by (auto simp: progress_def)
  qed
qed

function astar_loop :: "int \<Rightarrow> int \<Rightarrow> state \<Rightarrow> int \<Rightarrow> search \<Rightarrow> search_result" where
  "astar_loop M_total C_total goal_state boat_capacity \<sigma> =
     (case astar_iter M_total C_total goal_state boat_capacity \<sigma> of
        Inl \<sigma>' \<Rightarrow> astar_loop M_total C_total goal_state boat_capacity \<sigma>'
      | Inr result \<Rightarrow> result)"
  by pat_completeness auto
termination
proof (relation "inv_image (less_than <*lex*> less_than <*lex*> less_than)
     (\<lambda>(M, C, goal, cap, \<sigma>). (unknown M C \<sigma>, depth_sum M C \<sigma>, length (open_heap \<sigma>)))")
  show "wf (inv_image (less_than <*lex*> less_than <*lex*> less_than)
     (\<lambda>(M, C, goal, cap, \<sigma>). (unknown M C \<sigma>, depth_sum M C \<sigma>, length (open_heap \<sigma>))))"
    by (intro wf_inv_image wf_lex_prod wf_less_than)
next
  fix M_total C_total :: int and goal_state :: state and boat_capacity :: int
    and \<sigma> \<sigma>' :: search
  assume "astar_iter M_total C_total goal_state boat_capacity \<sigma> = Inl \<sigma>'"
  then have "(\<sigma>', \<sigma>) \<in> progress M_total C_total"
    by (rule astar_iter_progress)
  then show "((M_total, C_total, goal_state, boat_capacity, \<sigma>'),
              (M_total, C_total, goal_state, boat_capacity, \<sigma>))
      \<in> inv_image (less_than <*lex*> less_than <*lex*> less_than)
     (\<lambda>(M, C, goal, cap, \<sigma>). (unknown M C \<sigma>, depth_sum M C \<sigma>, length (open_heap \<sigma>)))"
    by (simp add: progress_def)
qed

declare astar_loop.simps [simp del]

text \<open>
  The variables on entry to the loop (lines 85 to 92 of the source), once the heuristic
  of the start state has returned \<open>start_h\<close>.
\<close>

definition astar_start :: "state \<Rightarrow> int \<Rightarrow> search" where
  "astar_start start_state start_h =
     \<lparr> open_heap = heappush [] (start_h, 0, start_state),
       g_cost = [start_state \<mapsto> 0],
       parent = [start_state \<mapsto> None],
       visited = {},
       num_generated = 1 \<rparr>"

definition astar_search :: "int \<Rightarrow> int \<Rightarrow> state \<Rightarrow> state \<Rightarrow> int \<Rightarrow> search_result" where
  "astar_search M_total C_total start_state goal_state boat_capacity =
     (case heuristic start_state M_total C_total of
        Inl e \<Rightarrow> Some (Inl e)
      | Inr start_h \<Rightarrow>
          astar_loop M_total C_total goal_state boat_capacity
            (astar_start start_state start_h))"



lemma bitlen_large:
  assumes "0 < bitlen a - 53"
  shows "0 < a \<and> 2 ^ 53 \<le> a \<and> 2 ^ nat (bitlen a - 53) \<le> a"
proof -
  have pos: "0 < a"
    using assms bitlen_eq_zero_iff [of a] by (cases "0 < a") auto
  have "(2::int) ^ 53 \<le> 2 ^ nat (bitlen a - 1)"
    using assms by (intro power_increasing) auto
  moreover have "(2::int) ^ nat (bitlen a - 53) \<le> 2 ^ nat (bitlen a - 1)"
    using assms by (intro power_increasing) auto
  moreover have "2 ^ nat (bitlen a - 1) \<le> a"
    using bitlen_bounds [OF pos] by simp
  ultimately show ?thesis using pos by linarith
qed

lemma float_of_int_exact:
  assumes "\<bar>n\<bar> < 2 ^ 53"
  shows "float_of_int n = Inr n"
proof (cases "bitlen \<bar>n\<bar> - 53 \<le> 0")
  case True
  then show ?thesis
    unfolding float_of_int_def Let_def by (rule if_P)
next
  case False
  then have "2 ^ 53 \<le> \<bar>n\<bar>"
    using bitlen_large [of "\<bar>n\<bar>"] by simp
  then show ?thesis using assms by simp
qed


lemma float_of_int_pow53: "float_of_int (2 ^ 53) = Inr (2 ^ 53)"
  by code_simp

lemma float_of_int_neg_pow53: "float_of_int (- (2 ^ 53)) = Inr (- (2 ^ 53))"
  by code_simp

lemma float_of_int_exact_le:
  assumes "\<bar>n\<bar> \<le> 2 ^ 53"
  shows "float_of_int n = Inr n"
proof (cases "\<bar>n\<bar> < 2 ^ 53")
  case True
  then show ?thesis by (rule float_of_int_exact)
next
  case False
  then have "n = 2 ^ 53 \<or> n = - (2 ^ 53)" using assms by linarith
  then show ?thesis
    using float_of_int_pow53 float_of_int_neg_pow53 by auto
qed

lemma ceil_half_exact:
  assumes "\<bar>n\<bar> \<le> 2 ^ 53"
  shows "ceil_half n = Inr ((n + 1) div 2)"
proof -
  have "\<lceil>real_of_int n / 2\<rceil> = - (- n div 2)"
    using ceiling_divide_eq_div [of n 2] by simp
  also have "\<dots> = (n + 1) div 2"
    by presburger
  finally show ?thesis
    by (simp add: ceil_half_def float_of_int_exact_le [OF assms])
qed

lemma heuristic_exact:
  assumes "\<bar>M_left + C_left\<bar> \<le> 2 ^ 53"
  shows "heuristic (M_left, C_left, M_right, C_right, boat_pos) M_total C_total
     = Inr ((M_left + C_left + 1) div 2)"
  using ceil_half_exact [OF assms] by simp

subsection \<open>The solver and the route\<close>

text \<open>Python's \<^verbatim>\<open>str\<close> on the indices of \<^verbatim>\<open>enumerate\<close>: the decimal numeral.\<close>

fun str :: "nat \<Rightarrow> string" where
  "str n = (if n < 10 then [char_of (48 + n)] else str (n div 10) @ [char_of (48 + n mod 10)])"

declare str.simps [simp del]

text \<open>
  The dictionary that \<^verbatim>\<open>solve_missionaries_cannibals\<close> returns. \<^verbatim>\<open>output\<close> maps
  the keys \<^verbatim>\<open>str(i)\<close>, in the order of the path, to the five values of the state, which
  the source labels \<^verbatim>\<open>M_left\<close>, \<^verbatim>\<open>C_left\<close>, \<^verbatim>\<open>M_right\<close>, \<^verbatim>\<open>C_right\<close> and
  \<^verbatim>\<open>boat_position\<close>. An argument left out or \<^verbatim>\<open>None\<close> is the value \<open>None\<close>.
  The line printed when there is no path is not modelled.
\<close>

record solution =
  solution_output :: "(string \<times> state) list option"
  number_of_states :: nat

definition solve_missionaries_cannibals ::
  "int \<Rightarrow> int \<Rightarrow> int \<Rightarrow> int option \<Rightarrow> int option \<Rightarrow> int option \<Rightarrow> int option \<Rightarrow> string
     \<Rightarrow> (py_error + solution) option" where
  "solve_missionaries_cannibals M_total C_total boat_capacity M_left C_left M_right C_right
       boat_position =
     (let M_left = (case M_left of None \<Rightarrow> M_total | Some v \<Rightarrow> v);
          C_left = (case C_left of None \<Rightarrow> C_total | Some v \<Rightarrow> v);
          M_right = (case M_right of None \<Rightarrow> 0 | Some v \<Rightarrow> v);
          C_right = (case C_right of None \<Rightarrow> 0 | Some v \<Rightarrow> v);
          start_state = (M_left, C_left, M_right, C_right, boat_position);
          goal_state = (0, 0, M_total, C_total, ''right'')
      in case astar_search M_total C_total start_state goal_state boat_capacity of
           None \<Rightarrow> None
         | Some (Inl e) \<Rightarrow> Some (Inl e)
         | Some (Inr (None, generated)) \<Rightarrow>
             Some (Inr \<lparr>solution_output = None, number_of_states = generated\<rparr>)
         | Some (Inr (Some solution_path, generated)) \<Rightarrow>
             Some (Inr \<lparr>solution_output = Some (map (\<lambda>(i, s). (str i, s)) (enumerate 0 solution_path)),
                        number_of_states = generated\<rparr>))"






text \<open>The values of the variables at the head of the loop, in the course of one search.\<close>

inductive reached :: "int \<Rightarrow> int \<Rightarrow> state \<Rightarrow> state \<Rightarrow> int \<Rightarrow> search \<Rightarrow> bool"
  for M_total C_total start_state goal_state boat_capacity where
  entry: "heuristic start_state M_total C_total = Inr start_h \<Longrightarrow>
          reached M_total C_total start_state goal_state boat_capacity
            (astar_start start_state start_h)"
| pass: "reached M_total C_total start_state goal_state boat_capacity \<sigma> \<Longrightarrow>
         astar_iter M_total C_total goal_state boat_capacity \<sigma> = Inl \<sigma>' \<Longrightarrow>
         reached M_total C_total start_state goal_state boat_capacity \<sigma>'"

section \<open>The legality checker and the successor generator\<close>

text \<open>
  C4. \<open>is_valid_state\<close> accepts exactly the counts that are all nonnegative, none above
  its total, and such that on each bank holding at least one missionary the cannibals do
  not outnumber the missionaries. A bank without missionaries is therefore accepted
  whatever its number of cannibals (within the bounds).
\<close>

theorem is_valid_state_iff:
  "(is_valid_state M_left C_left M_right C_right M_total C_total \<longleftrightarrow>
      (0 \<le> M_left \<and> 0 \<le> C_left \<and> 0 \<le> M_right \<and> 0 \<le> C_right) \<and>
      (M_left \<le> M_total \<and> C_left \<le> C_total \<and> M_right \<le> M_total \<and> C_right \<le> C_total) \<and>
      (0 < M_left \<longrightarrow> C_left \<le> M_left) \<and>
      (0 < M_right \<longrightarrow> C_right \<le> M_right))"
  by (auto simp: is_valid_state_def)

theorem is_valid_state_iff_witness:
  "is_valid_state 0 3 3 0 3 3 \<and> \<not> is_valid_state 1 2 2 1 3 3 \<and> \<not> is_valid_state (-1) 0 1 0 3 3"
  using is_valid_state_iff [of 0 3 3 0 3 3] is_valid_state_iff [of 1 2 2 1 3 3]
    is_valid_state_iff [of "-1" 0 1 0 3 3]
  by simp


subsection \<open>Successors\<close>

text \<open>
  The specification's words for one crossing, to compare \<open>get_next_states\<close> with:
  \<open>i\<close> missionaries and \<open>j\<close> cannibals leave the bank the boat is at for the other
  bank, and the boat changes side. \<open>legal\<close> is the legality checker on a state.
\<close>

definition spec_move :: "state \<Rightarrow> int \<times> int \<Rightarrow> state" where
  "spec_move s m =
     (case (s, m) of ((M_left, C_left, M_right, C_right, boat_pos), (i, j)) \<Rightarrow>
        if boat_pos = ''left''
        then (M_left - i, C_left - j, M_right + i, C_right + j, ''right'')
        else (M_left + i, C_left + j, M_right - i, C_right - j, ''left''))"

definition legal :: "int \<Rightarrow> int \<Rightarrow> state \<Rightarrow> bool" where
  "legal M_total C_total s =
     (case s of (M_left, C_left, M_right, C_right, boat_pos) \<Rightarrow>
        is_valid_state M_left C_left M_right C_right M_total C_total)"

lemma concat_map_if:
  "concat (map (\<lambda>x. if P x then [f x] else []) xs) = map f (filter P xs)"
  by (induction xs) simp_all

lemma get_possible_moves_product:
  "get_possible_moves cap =
     filter (\<lambda>(i, j). i + j \<le> cap \<and> i + j > 0) (List.product [0..cap] [0..cap])"
proof -
  have inner: "concat (map (\<lambda>j. if Q i j then [(i, j)] else []) ys)
      = filter (\<lambda>(i, j). Q i j) (map (Pair i) ys)" for Q :: "int \<Rightarrow> int \<Rightarrow> bool" and i ys
    by (induction ys) simp_all
  have outer: "concat (map (\<lambda>i. concat (map (\<lambda>j. if Q i j then [(i, j)] else []) ys)) xs)
      = filter (\<lambda>(i, j). Q i j) (List.product xs ys)" for Q :: "int \<Rightarrow> int \<Rightarrow> bool" and xs ys
    by (induction xs) (simp_all add: inner)
  show ?thesis
    unfolding get_possible_moves_def by (rule outer)
qed

lemma set_get_possible_moves:
  "set (get_possible_moves cap) = {(i, j). 0 \<le> i \<and> 0 \<le> j \<and> 1 \<le> i + j \<and> i + j \<le> cap}"
  by (auto simp: get_possible_moves_product)

lemma distinct_get_possible_moves: "distinct (get_possible_moves cap)"
  by (simp add: get_possible_moves_product distinct_product)

lemma get_next_states_filter:
  "get_next_states s M C cap =
     map (spec_move s) (filter (\<lambda>m. legal M C (spec_move s m)) (get_possible_moves cap))"
proof -
  obtain ml cl mr cr bp where s: "s = (ml, cl, mr, cr, bp)"
    by (cases s) auto
  have *: "concat (map (\<lambda>m. if legal M C (spec_move s m) then [spec_move s m] else []) xs)
      = map (spec_move s) (filter (\<lambda>m. legal M C (spec_move s m)) xs)" for xs
    by (rule concat_map_if)
  have "get_next_states s M C cap
      = concat (map (\<lambda>m. if legal M C (spec_move s m) then [spec_move s m] else [])
          (get_possible_moves cap))"
    unfolding s by (auto simp: spec_move_def legal_def Let_def intro!: arg_cong [where f = concat])
  then show ?thesis
    by (simp only: *)
qed


text \<open>
  C5. The successors of a state are exactly the results of moving \<open>i\<close> missionaries and
  \<open>j\<close> cannibals with \<open>1 \<le> i + j \<le> boat_capacity\<close> across that the legality checker
  accepts; the list has one element for each accepted choice of \<open>(i, j)\<close>, nothing is
  removed from it. (The function is a function of its arguments: it has no state to change.)
\<close>

theorem get_next_states_spec:
  "set (get_next_states s M_total C_total boat_capacity) =
     {t. \<exists>i j. 0 \<le> i \<and> 0 \<le> j \<and> 1 \<le> i + j \<and> i + j \<le> boat_capacity \<and>
            t = spec_move s (i, j) \<and> legal M_total C_total t}
   \<and> length (get_next_states s M_total C_total boat_capacity) =
     card {(i, j). 0 \<le> i \<and> 0 \<le> j \<and> 1 \<le> i + j \<and> i + j \<le> boat_capacity \<and>
            legal M_total C_total (spec_move s (i, j))}"
proof
  show "set (get_next_states s M_total C_total boat_capacity) =
     {t. \<exists>i j. 0 \<le> i \<and> 0 \<le> j \<and> 1 \<le> i + j \<and> i + j \<le> boat_capacity \<and>
            t = spec_move s (i, j) \<and> legal M_total C_total t}"
    unfolding get_next_states_filter set_map set_filter set_get_possible_moves
    by (rule set_eqI) (simp add: image_iff, blast)
next
  let ?P = "\<lambda>m. legal M_total C_total (spec_move s m)"
  have "length (get_next_states s M_total C_total boat_capacity)
      = length (filter ?P (get_possible_moves boat_capacity))"
    by (simp add: get_next_states_filter)
  also have "\<dots> = card (set (filter ?P (get_possible_moves boat_capacity)))"
    using distinct_card [OF distinct_filter [OF distinct_get_possible_moves]] by metis
  also have "set (filter ?P (get_possible_moves boat_capacity))
      = {(i, j). 0 \<le> i \<and> 0 \<le> j \<and> 1 \<le> i + j \<and> i + j \<le> boat_capacity \<and>
            legal M_total C_total (spec_move s (i, j))}"
    by (auto simp: set_get_possible_moves)
  finally show "length (get_next_states s M_total C_total boat_capacity) =
     card {(i, j). 0 \<le> i \<and> 0 \<le> j \<and> 1 \<le> i + j \<and> i + j \<le> boat_capacity \<and>
            legal M_total C_total (spec_move s (i, j))}" .
qed


theorem get_next_states_spec_witness:
  "(1, 1, 1, 1, ''right'') \<in> set (get_next_states (2, 2, 0, 0, ''left'') 2 2 2)
   \<and> (1, 2, 1, 0, ''right'') \<notin> set (get_next_states (2, 2, 0, 0, ''left'') 2 2 2)"
proof -
  let ?S = "{t. \<exists>i j. 0 \<le> i \<and> 0 \<le> j \<and> 1 \<le> i + j \<and> i + j \<le> (2::int) \<and>
            t = spec_move (2, 2, 0, 0, ''left'') (i, j) \<and> legal 2 2 t}"
  have eq: "set (get_next_states (2, 2, 0, 0, ''left'') 2 2 2) = ?S"
    using get_next_states_spec [of "(2, 2, 0, 0, ''left'')" 2 2 2] by (rule conjunct1)
  have "(1, 1, 1, 1, ''right'') \<in> ?S"
    by (intro CollectI exI [of _ 1]) (simp add: legal_def spec_move_def is_valid_state_def)
  moreover have "(1, 2, 1, 0, ''right'') \<notin> ?S"
    by (simp add: legal_def is_valid_state_def)
  ultimately show ?thesis
    unfolding eq by (rule conjI)
qed


section \<open>What the search returns\<close>

text \<open>
  The invariant of the loop: the start state has cost 0 and no parent; every other state
  with a parent is a successor of its parent, and its parent has a strictly smaller cost;
  every cost is below the counter; every frontier entry \<open>(f, g, s)\<close> has \<open>f = g + h(s)\<close>
  and a depth \<open>g\<close> that is at least the cost recorded for \<open>s\<close>.
\<close>

declare get_next_states.simps [simp del]
declare heuristic.simps [simp del]

definition path_ok :: "int \<Rightarrow> int \<Rightarrow> int \<Rightarrow> state \<Rightarrow> state \<Rightarrow> state list \<Rightarrow> bool" where
  "path_ok M_total C_total boat_capacity start_state goal_state path =
     (path \<noteq> [] \<and> hd path = start_state \<and> last path = goal_state \<and>
      successively (\<lambda>s s'. s' \<in> set (get_next_states s M_total C_total boat_capacity)) path)"

definition search_inv :: "int \<Rightarrow> int \<Rightarrow> int \<Rightarrow> state \<Rightarrow> search \<Rightarrow> bool" where
  "search_inv M C cap start \<sigma> =
     (g_cost \<sigma> start = Some 0 \<and> parent \<sigma> start = Some None \<and>
      (\<forall>s. parent \<sigma> s = Some None \<longrightarrow> s = start) \<and>
      (\<forall>s p. parent \<sigma> s = Some (Some p) \<longrightarrow>
         s \<in> set (get_next_states p M C cap) \<and>
         (\<exists>gp gs. g_cost \<sigma> p = Some gp \<and> g_cost \<sigma> s = Some gs \<and> gp < gs)) \<and>
      (\<forall>s. g_cost \<sigma> s \<noteq> None \<longrightarrow> parent \<sigma> s \<noteq> None) \<and>
      (\<forall>s g. g_cost \<sigma> s = Some g \<longrightarrow> g < num_generated \<sigma>) \<and>
      (\<forall>f g s. (f, g, s) \<in> set (open_heap \<sigma>) \<longrightarrow>
         heuristic s M C = Inr (f - int g) \<and> g < num_generated \<sigma> \<and>
         (\<exists>gc. g_cost \<sigma> s = Some gc \<and> gc \<le> g)))"

definition expanding :: "int \<Rightarrow> int \<Rightarrow> int \<Rightarrow> state \<Rightarrow> nat \<Rightarrow> state \<Rightarrow> search \<Rightarrow> bool" where
  "expanding M C cap start g cur \<sigma> =
     (search_inv M C cap start \<sigma> \<and> g < num_generated \<sigma> \<and>
      (\<exists>gc. g_cost \<sigma> cur = Some gc \<and> gc \<le> g))"

lemma next_state_legal:
  assumes "t \<in> set (get_next_states s M C cap)"
  shows "legal M C t"
  using assms by (auto simp: get_next_states_filter)

lemma legal_people:
  assumes "legal M C (ml, cl, mr, cr, bp)" and "M + C \<le> 2 ^ 53"
  shows "\<bar>ml + cl\<bar> \<le> 2 ^ 53"
  using assms by (simp add: legal_def is_valid_state_def split: if_splits)

lemma search_inv_start:
  "heuristic start M C = Inr start_h \<Longrightarrow> search_inv M C cap start (astar_start start start_h)"
  by (simp add: search_inv_def astar_start_def heappush_def)

lemma relax_expanding:
  assumes "expanding M C cap start g cur \<sigma>"
    and "nxt \<in> set (get_next_states cur M C cap)"
    and "relax M C g cur nxt \<sigma> = Inr \<sigma>'"
  shows "expanding M C cap start g cur \<sigma>'"
proof (cases "case g_cost \<sigma> nxt of None \<Rightarrow> True | Some c \<Rightarrow> g + 1 < c")
  case False
  then have "relax M C g cur nxt \<sigma> = Inr \<sigma>"
    unfolding relax_def Let_def by (rule if_not_P)
  then show ?thesis using assms(1,3) by simp
next
  case True
  from assms(1) obtain gc where inv: "search_inv M C cap start \<sigma>"
    and g: "g < num_generated \<sigma>" and gc: "g_cost \<sigma> cur = Some gc" "gc \<le> g"
    by (auto simp: expanding_def)
  have ns: "nxt \<noteq> start"
    using True inv by (auto simp: search_inv_def)
  have nc: "nxt \<noteq> cur"
    using True gc by auto
  have lower: "g_cost \<sigma> nxt = Some c \<Longrightarrow> g + 1 < c" for c
    using True by simp
  have "relax M C g cur nxt \<sigma> =
      (case heuristic nxt M C of
          Inl e \<Rightarrow> Inl e
        | Inr h \<Rightarrow>
            Inr (\<sigma>\<lparr> g_cost := (g_cost \<sigma>)(nxt \<mapsto> g + 1),
                      parent := (parent \<sigma>)(nxt \<mapsto> Some cur),
                      open_heap := heappush (open_heap \<sigma>) (int (g + 1) + h, g + 1, nxt),
                      num_generated := num_generated \<sigma> + 1 \<rparr>))"
    unfolding relax_def Let_def using True by (rule if_P)
  then obtain h where h: "heuristic nxt M C = Inr h"
    and eq: "\<sigma>' = \<sigma>\<lparr> g_cost := (g_cost \<sigma>)(nxt \<mapsto> g + 1),
              parent := (parent \<sigma>)(nxt \<mapsto> Some cur),
              open_heap := heappush (open_heap \<sigma>) (int (g + 1) + h, g + 1, nxt),
              num_generated := num_generated \<sigma> + 1 \<rparr>"
    using assms(3) by (cases "heuristic nxt M C") auto
  have sel: "g_cost \<sigma>' = (g_cost \<sigma>)(nxt \<mapsto> g + 1)"
    "parent \<sigma>' = (parent \<sigma>)(nxt \<mapsto> Some cur)"
    "open_heap \<sigma>' = open_heap \<sigma> @ [(int (g + 1) + h, g + 1, nxt)]"
    "num_generated \<sigma>' = num_generated \<sigma> + 1"
    by (simp_all add: eq heappush_def)
  have 1: "g_cost \<sigma>' start = Some 0 \<and> parent \<sigma>' start = Some None"
    using inv ns by (simp add: search_inv_def sel)
  have 2: "\<forall>s. parent \<sigma>' s = Some None \<longrightarrow> s = start"
    using inv by (simp add: search_inv_def sel)
  have 3: "\<forall>s p. parent \<sigma>' s = Some (Some p) \<longrightarrow>
         s \<in> set (get_next_states p M C cap) \<and>
         (\<exists>gp gs. g_cost \<sigma>' p = Some gp \<and> g_cost \<sigma>' s = Some gs \<and> gp < gs)"
  proof (intro allI impI)
    fix s p assume sp: "parent \<sigma>' s = Some (Some p)"
    show "s \<in> set (get_next_states p M C cap) \<and>
         (\<exists>gp gs. g_cost \<sigma>' p = Some gp \<and> g_cost \<sigma>' s = Some gs \<and> gp < gs)"
    proof (cases "s = nxt")
      case True
      then have "p = cur" using sp by (simp add: sel)
      then show ?thesis using True assms(2) gc nc by (simp add: sel)
    next
      case False
      then have old: "parent \<sigma> s = Some (Some p)" using sp by (simp add: sel)
      then obtain gp gs where o: "s \<in> set (get_next_states p M C cap)"
        "g_cost \<sigma> p = Some gp" "g_cost \<sigma> s = Some gs" "gp < gs"
        using inv unfolding search_inv_def by blast
      show ?thesis
      proof (cases "p = nxt")
        case True
        then have "g + 1 < gp" using o(2) lower by simp
        then show ?thesis using o True False by (simp add: sel)
      next
        case pn: False
        then show ?thesis using o False by (simp add: sel)
      qed
    qed
  qed
  have 4: "\<forall>s. g_cost \<sigma>' s \<noteq> None \<longrightarrow> parent \<sigma>' s \<noteq> None"
    using inv by (simp add: search_inv_def sel)
  have 5: "\<forall>s g'. g_cost \<sigma>' s = Some g' \<longrightarrow> g' < num_generated \<sigma>'"
    using inv g by (auto simp: search_inv_def less_Suc_eq sel)
  have 6: "\<forall>f g' s. (f, g', s) \<in> set (open_heap \<sigma>') \<longrightarrow>
         heuristic s M C = Inr (f - int g') \<and> g' < num_generated \<sigma>' \<and>
         (\<exists>gc. g_cost \<sigma>' s = Some gc \<and> gc \<le> g')"
  proof (intro allI impI)
    fix f g' s assume "(f, g', s) \<in> set (open_heap \<sigma>')"
    then consider "(f, g', s) \<in> set (open_heap \<sigma>)"
      | "f = int (g + 1) + h" "g' = g + 1" "s = nxt"
      by (auto simp: sel)
    then show "heuristic s M C = Inr (f - int g') \<and> g' < num_generated \<sigma>' \<and>
         (\<exists>gc. g_cost \<sigma>' s = Some gc \<and> gc \<le> g')"
    proof cases
      case 1
      then obtain gc' where o: "heuristic s M C = Inr (f - int g')" "g' < num_generated \<sigma>"
        "g_cost \<sigma> s = Some gc'" "gc' \<le> g'"
        using inv unfolding search_inv_def by blast
      show ?thesis
      proof (cases "s = nxt")
        case True
        then have "g + 1 < gc'" using o(3) lower by simp
        then show ?thesis using o True by (simp add: sel)
      next
        case False
        then show ?thesis using o by (simp add: sel)
      qed
    next
      case 2
      then show ?thesis using g h by (simp add: sel)
    qed
  qed
  have "search_inv M C cap start \<sigma>'"
    unfolding search_inv_def using 1 2 3 4 5 6 by blast
  moreover have "g < num_generated \<sigma>'" using g by (simp add: sel)
  moreover have "\<exists>gc. g_cost \<sigma>' cur = Some gc \<and> gc \<le> g"
    using gc nc by (simp add: sel)
  ultimately show ?thesis
    unfolding expanding_def by blast
qed

lemma relax_all_expanding:
  assumes "set xs \<subseteq> set (get_next_states cur M C cap)"
  shows "expanding M C cap start g cur \<sigma> \<Longrightarrow> relax_all M C g cur xs \<sigma> = Inr \<sigma>' \<Longrightarrow>
         expanding M C cap start g cur \<sigma>'"
  using assms
proof (induction xs arbitrary: \<sigma>)
  case Nil
  then show ?case by simp
next
  case (Cons x xs)
  from Cons.prems(2) obtain \<sigma>1 where 1: "relax M C g cur x \<sigma> = Inr \<sigma>1"
    and 2: "relax_all M C g cur xs \<sigma>1 = Inr \<sigma>'"
    by (cases "relax M C g cur x \<sigma>") auto
  have x: "x \<in> set (get_next_states cur M C cap)" and xs: "set xs \<subseteq> set (get_next_states cur M C cap)"
    using Cons.prems(3) by auto
  have "expanding M C cap start g cur \<sigma>1"
    using Cons.prems(1) x 1 by (rule relax_expanding)
  then show ?case
    using 2 xs by (rule Cons.IH)
qed

lemma heuristic_error:
  "heuristic s M C = Inl e \<Longrightarrow> e = OverflowError"
  by (cases s)
    (auto simp: heuristic.simps ceil_half_def float_of_int_def Let_def split: if_splits sum.splits)

lemma relax_all_error:
  "relax_all M C g cur xs \<sigma> = Inl e \<Longrightarrow>
     e = OverflowError \<and> (\<exists>s \<in> set xs. heuristic s M C = Inl OverflowError)"
proof (induction xs arbitrary: \<sigma>)
  case Nil
  then show ?case by simp
next
  case (Cons x xs)
  show ?case
  proof (cases "relax M C g cur x \<sigma>")
    case (Inl e')
    then have e: "e' = e" using Cons.prems by simp
    have "heuristic x M C = Inl e'"
      using Inl by (auto simp: relax_def Let_def split: if_splits sum.splits)
    then show ?thesis using heuristic_error [of x M C e'] e by auto
  next
    case (Inr \<sigma>1)
    then show ?thesis using Cons by simp
  qed
qed

lemma heappop_least:
  assumes "heappop h = Inr (e, rest)"
  shows "e \<in> set h \<and> (\<forall>x \<in> set h. e \<le> x) \<and> rest = remove1 e h"
proof (cases h)
  case Nil
  then show ?thesis using assms by simp
next
  case (Cons x xs)
  have m: "fold min xs x = Min (set (x # xs))"
    by (simp only: Min.set_eq_fold)
  have "Min (set (x # xs)) \<in> set (x # xs)"
    by (rule Min_in) simp_all
  moreover have "\<forall>y \<in> set (x # xs). Min (set (x # xs)) \<le> y"
    by (intro ballI Min_le) simp_all
  moreover have "e = Min (set (x # xs))" "rest = remove1 e h"
    using assms Cons m by (auto simp: Let_def)
  ultimately show ?thesis using Cons by simp
qed


lemma search_inv_shrink:
  assumes "search_inv M C cap start \<sigma>"
    and "set heap' \<subseteq> set (open_heap \<sigma>)"
    and "open_heap \<sigma>' = heap'" "g_cost \<sigma>' = g_cost \<sigma>" "parent \<sigma>' = parent \<sigma>"
      "num_generated \<sigma>' = num_generated \<sigma>"
  shows "search_inv M C cap start \<sigma>'"
proof -
  have heap: "\<forall>f g s. (f, g, s) \<in> set heap' \<longrightarrow> (f, g, s) \<in> set (open_heap \<sigma>)"
    using assms(2) by blast
  show ?thesis
    using assms(1) heap unfolding search_inv_def assms(3-6) by blast
qed

lemma reconstruct_None: "reconstruct par None path = Some (Inr path)"
  by (subst reconstruct.simps) simp

lemma reconstruct_Some:
  "reconstruct par (Some c) path =
     (case par c of None \<Rightarrow> Some (Inl KeyError) | Some nxt \<Rightarrow> reconstruct par nxt (path @ [c]))"
  by (subst reconstruct.simps) simp

lemma reconstruct_chain:
  assumes "search_inv M C cap start \<sigma>"
  shows "g_cost \<sigma> s = Some n \<Longrightarrow>
     \<exists>chain. reconstruct (parent \<sigma>) (Some s) acc = Some (Inr (acc @ chain)) \<and>
       chain \<noteq> [] \<and> hd chain = s \<and> last chain = start \<and> length chain \<le> n + 1 \<and>
       successively (\<lambda>a b. a \<in> set (get_next_states b M C cap)) chain"
proof (induction n arbitrary: s acc rule: less_induct)
  case (less n)
  have dom: "parent \<sigma> s \<noteq> None"
    using assms less.prems unfolding search_inv_def by blast
  then obtain q where q: "parent \<sigma> s = Some q" by blast
  show ?case
  proof (cases q)
    case None
    then have "s = start" using assms q unfolding search_inv_def by blast
    moreover have "reconstruct (parent \<sigma>) (Some s) acc = Some (Inr (acc @ [s]))"
      using q None by (simp add: reconstruct_Some reconstruct_None)
    ultimately show ?thesis by simp
  next
    case (Some p)
    have link: "parent \<sigma> s = Some (Some p)"
      using q Some by simp
    have "s \<in> set (get_next_states p M C cap) \<and>
         (\<exists>gp gs. g_cost \<sigma> p = Some gp \<and> g_cost \<sigma> s = Some gs \<and> gp < gs)"
      using assms link unfolding search_inv_def by blast
    then obtain gp where p: "s \<in> set (get_next_states p M C cap)"
      "g_cost \<sigma> p = Some gp" "gp < n"
      using less.prems by auto
    from less.IH [OF p(3) p(2), of "acc @ [s]"] obtain chain where
      c: "reconstruct (parent \<sigma>) (Some p) (acc @ [s]) = Some (Inr ((acc @ [s]) @ chain))"
        "chain \<noteq> []" "hd chain = p" "last chain = start" "length chain \<le> gp + 1"
        "successively (\<lambda>a b. a \<in> set (get_next_states b M C cap)) chain"
      by blast
    have "reconstruct (parent \<sigma>) (Some s) acc = Some (Inr (acc @ (s # chain)))"
      using q Some c(1) by (simp add: reconstruct_Some)
    moreover have "successively (\<lambda>a b. a \<in> set (get_next_states b M C cap)) (s # chain)"
      using c(2,3,6) p(1) by (simp add: successively_Cons)
    moreover have "length (s # chain) \<le> n + 1"
      using c(5) p(3) by simp
    moreover have "last (s # chain) = start"
      using c(2,4) by simp
    ultimately show ?thesis
      by (intro exI [of _ "s # chain"]) simp
  qed
qed

text \<open>
  What the search can return: a result, or the error of the heuristic. \<open>returns_ok\<close> is
  a result as it has to be; the error is raised at the start state or at a legal state.
\<close>

definition returns_ok :: "int \<Rightarrow> int \<Rightarrow> int \<Rightarrow> state \<Rightarrow> state \<Rightarrow> search_result \<Rightarrow> bool" where
  "returns_ok M C cap start goal r =
     (\<exists>res n. r = Some (Inr (res, n)) \<and> 1 \<le> n \<and>
        (case res of None \<Rightarrow> True
         | Some path \<Rightarrow> path_ok M C cap start goal path \<and> length path \<le> n))"

definition returns :: "int \<Rightarrow> int \<Rightarrow> int \<Rightarrow> state \<Rightarrow> state \<Rightarrow> search_result \<Rightarrow> bool" where
  "returns M C cap start goal r =
     (returns_ok M C cap start goal r \<or>
      r = Some (Inl OverflowError) \<and>
      (\<exists>s. (s = start \<or> legal M C s) \<and> heuristic s M C = Inl OverflowError))"

lemma astar_iter_inv:
  assumes inv: "search_inv M C cap start \<sigma>"
  shows "case astar_iter M C goal cap \<sigma> of
           Inl \<sigma>' \<Rightarrow> search_inv M C cap start \<sigma>'
         | Inr r \<Rightarrow> returns M C cap start goal r"
proof (cases "open_heap \<sigma> = []")
  case True
  have "g_cost \<sigma> start = Some 0"
    using inv unfolding search_inv_def by blast
  then have "0 < num_generated \<sigma>"
    using inv unfolding search_inv_def by blast
  then show ?thesis using True by (simp add: astar_iter_def returns_ok_def returns_def)
next
  case ne: False
  then obtain e rest where pop: "heappop (open_heap \<sigma>) = Inr (e, rest)"
    by (cases "open_heap \<sigma>") (auto simp: Let_def)
  obtain f g current where e: "e = (f, g, current)"
    by (cases e) auto
  have mem: "(f, g, current) \<in> set (open_heap \<sigma>)" and rest: "set rest \<subseteq> set (open_heap \<sigma>)"
    using heappop_least [OF pop] e set_remove1_subset [of e "open_heap \<sigma>"] by simp_all
  from inv mem obtain gc where cur: "g < num_generated \<sigma>" "g_cost \<sigma> current = Some gc" "gc \<le> g"
    unfolding search_inv_def by blast
  have inv1: "search_inv M C cap start (\<sigma>\<lparr>open_heap := rest\<rparr>)"
    using inv rest by (rule search_inv_shrink) simp_all
  show ?thesis
  proof (cases "current \<in> visited \<sigma>")
    case True
    then show ?thesis
      using ne pop e inv1 by (simp add: astar_iter_def)
  next
    case nv: False
    let ?\<sigma>2 = "\<sigma>\<lparr>open_heap := rest, visited := insert current (visited \<sigma>)\<rparr>"
    have inv2: "search_inv M C cap start ?\<sigma>2"
      using inv rest by (rule search_inv_shrink) simp_all
    show ?thesis
    proof (cases "current = goal")
      case True
      from reconstruct_chain [OF inv2, of current gc "[]"] cur(2) obtain chain where
        c: "reconstruct (parent ?\<sigma>2) (Some current) [] = Some (Inr chain)"
          "chain \<noteq> []" "hd chain = current" "last chain = start" "length chain \<le> gc + 1"
          "successively (\<lambda>a b. a \<in> set (get_next_states b M C cap)) chain"
        by auto
      have "path_ok M C cap start goal (rev chain)"
        using c True by (simp add: path_ok_def hd_rev last_rev)
      moreover have "length (rev chain) \<le> num_generated ?\<sigma>2"
        using c(5) cur by simp
      moreover have "1 \<le> num_generated ?\<sigma>2"
        using cur(1) by simp
      moreover have "astar_iter M C goal cap \<sigma>
          = Inr (Some (Inr (Some (rev chain), num_generated ?\<sigma>2)))"
        using ne pop e nv True c(1) by (simp add: astar_iter_def Let_def)
      ultimately show ?thesis
        by (simp add: returns_ok_def returns_def)
    next
      case ng: False
      have ex: "expanding M C cap start g current ?\<sigma>2"
        using inv2 cur by (simp add: expanding_def)
      have it: "astar_iter M C goal cap \<sigma>
          = (case relax_all M C g current (get_next_states current M C cap) ?\<sigma>2 of
               Inl e \<Rightarrow> Inr (Some (Inl e)) | Inr \<sigma>' \<Rightarrow> Inl \<sigma>')"
        using ne pop e nv ng by (simp add: astar_iter_def Let_def)
      show ?thesis
      proof (cases "relax_all M C g current (get_next_states current M C cap) ?\<sigma>2")
        case (Inl err)
        then obtain s where "err = OverflowError"
          "s \<in> set (get_next_states current M C cap)" "heuristic s M C = Inl OverflowError"
          using relax_all_error by blast
        then have "err = OverflowError" and "legal M C s \<and> heuristic s M C = Inl OverflowError"
          using next_state_legal [of s current M C cap] by auto
        then have "returns M C cap start goal (Some (Inl err))"
          unfolding returns_def by blast
        then show ?thesis
          using it Inl by simp
      next
        case (Inr \<sigma>')
        have "expanding M C cap start g current \<sigma>'"
          using _ ex Inr by (rule relax_all_expanding) simp
        then show ?thesis using it Inr by (simp add: expanding_def)
      qed
    qed
  qed
qed

lemma astar_loop_inv:
  "search_inv M C cap start \<sigma> \<Longrightarrow> returns M C cap start goal (astar_loop M C goal cap \<sigma>)"
proof (induction M C goal cap \<sigma> rule: astar_loop.induct)
  case (1 M C goal cap \<sigma>)
  show ?case
  proof (cases "astar_iter M C goal cap \<sigma>")
    case (Inl \<sigma>')
    then have "search_inv M C cap start \<sigma>'"
      using astar_iter_inv [OF "1.prems", of goal] by simp
    then have "returns M C cap start goal (astar_loop M C goal cap \<sigma>')"
      using "1.IH" Inl by blast
    then show ?thesis
      using Inl by (subst astar_loop.simps) simp
  next
    case (Inr r)
    then have "returns M C cap start goal r"
      using astar_iter_inv [OF "1.prems", of goal] by simp
    then show ?thesis
      using Inr by (subst astar_loop.simps) simp
  qed
qed

lemma astar_search_returns:
  "returns M C cap start goal (astar_search M C start goal cap)"
proof (cases "heuristic start M C")
  case (Inl e)
  then have e: "e = OverflowError" by (rule heuristic_error)
  then have "returns M C cap start goal (Some (Inl e))"
    using Inl unfolding returns_def by blast
  then show ?thesis using Inl by (simp add: astar_search_def)
next
  case (Inr h)
  then have "search_inv M C cap start (astar_start start h)"
    by (rule search_inv_start)
  then have "returns M C cap start goal (astar_loop M C goal cap (astar_start start h))"
    by (rule astar_loop_inv)
  then show ?thesis using Inr by (simp add: astar_search_def)
qed

lemma astar_search_returns_ok:
  assumes "astar_search M C start goal cap = Some (Inr r)"
  shows "returns_ok M C cap start goal (astar_search M C start goal cap)"
  using astar_search_returns [of M C cap start goal] assms by (simp add: returns_def)


subsection \<open>Some runs\<close>

lemma astar_222:
  "astar_search 2 2 (2, 2, 0, 0, ''left'') (0, 0, 2, 2, ''right'') 2 =
     Some (Inr (Some [(2, 2, 0, 0, ''left''), (1, 1, 1, 1, ''right''), (2, 1, 0, 1, ''left''),
                      (0, 1, 2, 1, ''right''), (0, 2, 2, 0, ''left''), (0, 0, 2, 2, ''right'')],
                10))"
  by code_simp

lemma astar_331:
  "astar_search 3 3 (3, 3, 0, 0, ''left'') (0, 0, 3, 3, ''right'') 1 = Some (Inr (None, 2))"
  by code_simp

lemma first_pass_222:
  "map_sum open_heap id
     (astar_iter 2 2 (0, 0, 2, 2, ''right'') 2 (astar_start (2, 2, 0, 0, ''left'') 2)) =
   Inl [(3, 1, 2, 1, 0, 1, ''right''), (2, 1, 2, 0, 0, 2, ''right''),
        (2, 1, 1, 1, 1, 1, ''right''), (2, 1, 0, 2, 2, 0, ''right'')]"
  by code_simp


subsection \<open>Properties of the result\<close>

lemma reached_inv:
  "reached M C start goal cap \<sigma> \<Longrightarrow> search_inv M C cap start \<sigma>"
proof (induction rule: reached.induct)
  case (entry start_h)
  then show ?case by (rule search_inv_start)
next
  case (pass \<sigma> \<sigma>')
  have "case astar_iter M C goal cap \<sigma> of
           Inl \<sigma>' \<Rightarrow> search_inv M C cap start \<sigma>'
         | Inr r \<Rightarrow> returns M C cap start goal r"
    using pass.IH by (rule astar_iter_inv)
  then show ?case
    by (simp only: pass.hyps(2) sum.case)
qed

lemma reached_result:
  "reached M C start goal cap \<sigma> \<Longrightarrow>
     astar_loop M C goal cap \<sigma> = astar_search M C start goal cap"
proof (induction rule: reached.induct)
  case (entry start_h)
  then show ?case by (simp add: astar_search_def)
next
  case (pass \<sigma> \<sigma>')
  have "astar_loop M C goal cap \<sigma> = astar_loop M C goal cap \<sigma>'"
    using pass.hyps(2) by (subst astar_loop.simps) simp
  then show ?case using pass.IH by simp
qed

lemma next_state_sums:
  assumes "t \<in> set (get_next_states (ml, cl, mr, cr, bp) M C cap)"
  obtains ml' cl' mr' cr' bp' where "t = (ml', cl', mr', cr', bp')"
    "ml' + mr' = ml + mr" "cl' + cr' = cl + cr"
proof -
  from assms obtain i j where "t = spec_move (ml, cl, mr, cr, bp) (i, j)"
    by (auto simp: get_next_states_filter)
  then show thesis
    using that by (cases "bp = ''left''") (simp_all add: spec_move_def)
qed

lemma successively_all:
  assumes step: "\<And>a b. P a \<Longrightarrow> R a b \<Longrightarrow> P b"
  shows "successively R xs \<Longrightarrow> xs \<noteq> [] \<Longrightarrow> P (hd xs) \<Longrightarrow> \<forall>x \<in> set xs. P x"
proof (induction xs)
  case Nil
  then show ?case by simp
next
  case (Cons x xs)
  have x: "P x" using Cons.prems(3) by simp
  show ?case
  proof (cases "xs = []")
    case True
    then show ?thesis using x by simp
  next
    case False
    have "R x (hd xs)" and s: "successively R xs"
      using Cons.prems(1) False by (simp_all add: successively_Cons)
    with x have "P (hd xs)" by (blast intro: step)
    with s False have "\<forall>y \<in> set xs. P y" by (rule Cons.IH)
    then show ?thesis using x by simp
  qed
qed



text \<open>
  C9. The count returned with a path is at least the length of the path, and the count
  returned with no path is at least 1.
\<close>

theorem states_generated_bound:
  assumes "astar_search M_total C_total start_state goal_state boat_capacity
             = Some (Inr (result, n))"
  shows "case result of Some path \<Rightarrow> length path \<le> n | None \<Rightarrow> 1 \<le> n"
  using astar_search_returns_ok [OF assms] assms
  by (auto simp: returns_ok_def split: option.splits)

theorem states_generated_bound_witness:
  "length [(2, 2, 0, 0, ''left''), (1, 1, 1, 1, ''right''), (2, 1, 0, 1, ''left''),
           (0, 1, 2, 1, ''right''), (0, 2, 2, 0, ''left''), (0, 0, 2, 2, ''right'') :: state]
     \<le> (10::nat)
   \<and> (1::nat) \<le> 2"
  using states_generated_bound [OF astar_222] states_generated_bound [OF astar_331]
  by simp

text \<open>
  C10. When the start state is legal, every state of a returned path is legal, and has
  the numbers of missionaries and of cannibals, both banks together, of the start state.
\<close>

theorem path_states_legal:
  assumes "astar_search M_total C_total (M_left, C_left, M_right, C_right, boat_position)
             goal_state boat_capacity = Some (Inr (Some path, n))"
    and "is_valid_state M_left C_left M_right C_right M_total C_total"
  shows "\<forall>(ml, cl, mr, cr, bp) \<in> set path.
           is_valid_state ml cl mr cr M_total C_total \<and>
           ml + mr = M_left + M_right \<and> cl + cr = C_left + C_right"
proof -
  define P :: "state \<Rightarrow> bool" where "P = (\<lambda>(ml, cl, mr, cr, bp).
           is_valid_state ml cl mr cr M_total C_total \<and>
           ml + mr = M_left + M_right \<and> cl + cr = C_left + C_right)"
  define R :: "state \<Rightarrow> state \<Rightarrow> bool"
    where "R = (\<lambda>s s'. s' \<in> set (get_next_states s M_total C_total boat_capacity))"
  have p: "path \<noteq> []" "hd path = (M_left, C_left, M_right, C_right, boat_position)"
    "successively R path"
    using astar_search_returns_ok [OF assms(1)] assms(1)
    by (simp_all add: returns_ok_def path_ok_def R_def)
  have start: "P (hd path)"
    using assms(2) by (simp add: p(2) P_def)
  have step: "P b" if "P a" "R a b" for a b
  proof -
    obtain ml cl mr cr bp where a: "a = (ml, cl, mr, cr, bp)"
      by (cases a) auto
    have nx: "b \<in> set (get_next_states (ml, cl, mr, cr, bp) M_total C_total boat_capacity)"
      using that(2) by (simp add: R_def a)
    from nx obtain ml' cl' mr' cr' bp' where b: "b = (ml', cl', mr', cr', bp')"
      "ml' + mr' = ml + mr" "cl' + cr' = cl + cr"
      by (rule next_state_sums)
    have "legal M_total C_total b"
      using nx by (rule next_state_legal)
    then show ?thesis
      using that(1) b by (simp add: legal_def P_def a)
  qed
  have "\<forall>s \<in> set path. P s"
    using step p(3) p(1) start by (rule successively_all)
  then show ?thesis
    by (simp add: P_def)
qed

theorem path_states_legal_witness:
  "is_valid_state 2 2 0 0 2 2 \<and> is_valid_state 0 1 2 1 2 2 \<and>
   (0::int) + 2 = 2 + 0 \<and> (1::int) + 1 = 2 + 0"
proof -
  have v: "is_valid_state 2 2 0 0 2 2"
    by (simp add: is_valid_state_def)
  have "(0, 1, 2, 1, ''right'') \<in> set [(2, 2, 0, 0, ''left''), (1, 1, 1, 1, ''right''),
       (2, 1, 0, 1, ''left''), (0, 1, 2, 1, ''right''), (0, 2, 2, 0, ''left''),
       (0, 0, 2, 2, ''right'')]"
    by simp
  with path_states_legal [OF astar_222 v]
  have "case (0, 1, 2, 1, ''right'') of (ml, cl, mr, cr, bp) \<Rightarrow>
     is_valid_state ml cl mr cr 2 2 \<and> ml + mr = 2 + 0 \<and> cl + cr = 2 + 0"
    by (rule bspec)
  then show ?thesis
    using v by simp
qed


subsection \<open>The exhausted frontier\<close>

lemma next_states_negative:
  "get_next_states (- 1, 0, 0, 0, ''left'') (- 1) 0 2 = []"
  by code_simp

lemma first_pass_negative:
  "astar_iter (- 1) 0 (0, 0, - 1, 0, ''right'') 2 (astar_start (- 1, 0, 0, 0, ''left'') 0)
     = Inl ((astar_start (- 1, 0, 0, 0, ''left'') 0)
              \<lparr>open_heap := [], visited := {(- 1, 0, 0, 0, ''left'')}\<rparr>)"
  by (simp add: astar_iter_def astar_start_def heappush_def Let_def next_states_negative)

text \<open>
  C8. When the loop finds the frontier empty, the search returns no path together with
  the count reached; and when the search returns no path with a count, the solver returns
  the dictionary with \<^verbatim>\<open>output\<close> \<^verbatim>\<open>None\<close> and that count. Neither is an error.
\<close>

theorem no_path_reported:
  "(reached M_total C_total start_state goal_state boat_capacity \<sigma> \<and> open_heap \<sigma> = [] \<longrightarrow>
      astar_search M_total C_total start_state goal_state boat_capacity
        = Some (Inr (None, num_generated \<sigma>)))
   \<and> (astar_search M_total C_total
         (case M_left of None \<Rightarrow> M_total | Some v \<Rightarrow> v,
          case C_left of None \<Rightarrow> C_total | Some v \<Rightarrow> v,
          case M_right of None \<Rightarrow> 0 | Some v \<Rightarrow> v,
          case C_right of None \<Rightarrow> 0 | Some v \<Rightarrow> v, boat_position)
         (0, 0, M_total, C_total, ''right'') boat_capacity = Some (Inr (None, n)) \<longrightarrow>
       solve_missionaries_cannibals M_total C_total boat_capacity M_left C_left M_right C_right
         boat_position = Some (Inr \<lparr>solution_output = None, number_of_states = n\<rparr>))"
proof (intro conjI impI)
  assume a: "reached M_total C_total start_state goal_state boat_capacity \<sigma> \<and> open_heap \<sigma> = []"
  then have "astar_loop M_total C_total goal_state boat_capacity \<sigma>
      = astar_search M_total C_total start_state goal_state boat_capacity"
    by (simp add: reached_result)
  moreover have "astar_loop M_total C_total goal_state boat_capacity \<sigma>
      = Some (Inr (None, num_generated \<sigma>))"
    using a by (subst astar_loop.simps) (simp add: astar_iter_def)
  ultimately show "astar_search M_total C_total start_state goal_state boat_capacity
        = Some (Inr (None, num_generated \<sigma>))"
    by simp
next
  assume "astar_search M_total C_total
         (case M_left of None \<Rightarrow> M_total | Some v \<Rightarrow> v,
          case C_left of None \<Rightarrow> C_total | Some v \<Rightarrow> v,
          case M_right of None \<Rightarrow> 0 | Some v \<Rightarrow> v,
          case C_right of None \<Rightarrow> 0 | Some v \<Rightarrow> v, boat_position)
         (0, 0, M_total, C_total, ''right'') boat_capacity = Some (Inr (None, n))"
  then show "solve_missionaries_cannibals M_total C_total boat_capacity M_left C_left M_right
      C_right boat_position = Some (Inr \<lparr>solution_output = None, number_of_states = n\<rparr>)"
    by (simp add: solve_missionaries_cannibals_def Let_def)
qed

theorem no_path_reported_witness:
  "astar_search (- 1) 0 (- 1, 0, 0, 0, ''left'') (0, 0, - 1, 0, ''right'') 2
     = Some (Inr (None, 1))
   \<and> solve_missionaries_cannibals (- 1) 0 2 None None None None ''left''
     = Some (Inr \<lparr>solution_output = None, number_of_states = 1\<rparr>)"
proof -
  let ?s = "(- 1, 0, 0, 0, ''left'') :: state"
  let ?g = "(0, 0, - 1, 0, ''right'') :: state"
  let ?\<sigma> = "(astar_start ?s 0)\<lparr>open_heap := [], visited := {?s}\<rparr>"
  have h: "heuristic ?s (- 1) 0 = Inr 0"
    by (simp add: heuristic_exact)
  have r: "reached (- 1) 0 ?s ?g 2 ?\<sigma>"
    using reached.entry [OF h] first_pass_negative by (rule reached.pass)
  have e: "open_heap ?\<sigma> = []" by simp
  have n: "num_generated ?\<sigma> = 1" by (simp add: astar_start_def)
  note th = no_path_reported [of "- 1" 0 ?s ?g 2 ?\<sigma> None None None None "''left''" 1]
  have 1: "astar_search (- 1) 0 ?s ?g 2 = Some (Inr (None, 1))"
    using th r e n by simp
  then have "solve_missionaries_cannibals (- 1) 0 2 None None None None ''left''
     = Some (Inr \<lparr>solution_output = None, number_of_states = 1\<rparr>)"
    using th by simp
  with 1 show ?thesis by simp
qed


subsection \<open>The order of the frontier\<close>

lemma entry_state:
  assumes "search_inv M C cap start \<sigma>" and "(f, g, s) \<in> set (open_heap \<sigma>)"
  shows "s = start \<or> legal M C s"
proof -
  obtain gc where "g_cost \<sigma> s = Some gc"
    using assms unfolding search_inv_def by blast
  then have "parent \<sigma> s \<noteq> None"
    using assms(1) unfolding search_inv_def by blast
  then obtain q where q: "parent \<sigma> s = Some q" by blast
  show ?thesis
  proof (cases q)
    case None
    then show ?thesis using assms(1) q unfolding search_inv_def by blast
  next
    case (Some p)
    then have "s \<in> set (get_next_states p M C cap)"
      using assms(1) q unfolding search_inv_def by blast
    then show ?thesis using next_state_legal by blast
  qed
qed

lemma heuristic_step:
  assumes cap: "boat_capacity \<le> 2"
    and t: "t \<in> set (get_next_states (ml, cl, mr, cr, bp) M C boat_capacity)"
    and s: "\<bar>ml + cl\<bar> \<le> 2 ^ 53" and tot: "M + C \<le> 2 ^ 53"
  shows "\<exists>hs ht. heuristic (ml, cl, mr, cr, bp) M C = Inr hs \<and> heuristic t M C = Inr ht \<and>
           hs \<le> ht + 1"
proof -
  from t obtain i j where m: "0 \<le> i" "0 \<le> j" "i + j \<le> boat_capacity"
    and tm: "t = spec_move (ml, cl, mr, cr, bp) (i, j)"
    by (auto simp: get_next_states_filter set_get_possible_moves)
  have ij: "i + j \<le> 2" using m(3) cap by simp
  obtain ml' cl' mr' cr' bp' where t': "t = (ml', cl', mr', cr', bp')"
    by (cases t) auto
  have "legal M C t" using t by (rule next_state_legal)
  then have b: "\<bar>ml' + cl'\<bar> \<le> 2 ^ 53"
    unfolding t' using tot by (rule legal_people)
  have d: "ml + cl \<le> ml' + cl' + 2"
    using tm ij m(1,2) unfolding t' by (cases "bp = ''left''") (simp_all add: spec_move_def)
  have "heuristic (ml, cl, mr, cr, bp) M C = Inr ((ml + cl + 1) div 2)"
    using s by (rule heuristic_exact)
  moreover have "heuristic t M C = Inr ((ml' + cl' + 1) div 2)"
    unfolding t' using b by (rule heuristic_exact)
  moreover have "(ml + cl + 1) div 2 \<le> (ml' + cl' + 1) div 2 + 1"
    using d by linarith
  ultimately show ?thesis by blast
qed

lemma relax_heap:
  assumes "relax M C g cur nxt \<sigma> = Inr \<sigma>'" and "(f', g', s') \<in> set (open_heap \<sigma>')"
  shows "(f', g', s') \<in> set (open_heap \<sigma>) \<or>
         (s' = nxt \<and> g' = g + 1 \<and> heuristic s' M C = Inr (f' - int g'))"
  using assms
  by (auto simp: relax_def Let_def heappush_def split: if_splits sum.splits)

lemma relax_all_heap:
  "relax_all M C g cur xs \<sigma> = Inr \<sigma>' \<Longrightarrow> (f', g', s') \<in> set (open_heap \<sigma>') \<Longrightarrow>
     (f', g', s') \<in> set (open_heap \<sigma>) \<or>
     (s' \<in> set xs \<and> g' = g + 1 \<and> heuristic s' M C = Inr (f' - int g'))"
proof (induction xs arbitrary: \<sigma>)
  case Nil
  then show ?case by simp
next
  case (Cons x xs)
  from Cons.prems(1) obtain \<sigma>1 where 1: "relax M C g cur x \<sigma> = Inr \<sigma>1"
    and 2: "relax_all M C g cur xs \<sigma>1 = Inr \<sigma>'"
    by (cases "relax M C g cur x \<sigma>") auto
  from Cons.IH [OF 2 Cons.prems(2)] show ?case
  proof
    assume "(f', g', s') \<in> set (open_heap \<sigma>1)"
    with relax_heap [OF 1, of f' g' s'] show ?thesis by auto
  next
    assume "s' \<in> set xs \<and> g' = g + 1 \<and> heuristic s' M C = Inr (f' - int g')"
    then show ?thesis by simp
  qed
qed

lemma astar_iter_heap:
  assumes "heappop (open_heap \<sigma>) = Inr ((f, g, current), rest)"
    and "astar_iter M C goal cap \<sigma> = Inl \<sigma>'"
    and "(f', g', s') \<in> set (open_heap \<sigma>')"
  shows "(f', g', s') \<in> set (open_heap \<sigma>) \<or>
         (s' \<in> set (get_next_states current M C cap) \<and> g' = g + 1 \<and>
          heuristic s' M C = Inr (f' - int g'))"
proof -
  have ne: "open_heap \<sigma> \<noteq> []" using assms(1) by auto
  have rest: "set rest \<subseteq> set (open_heap \<sigma>)"
    using heappop_least [OF assms(1)] set_remove1_subset [of "(f, g, current)" "open_heap \<sigma>"]
    by simp
  show ?thesis
  proof (cases "current \<in> visited \<sigma>")
    case True
    then have "\<sigma>' = \<sigma>\<lparr>open_heap := rest\<rparr>"
      using assms(1,2) ne by (simp add: astar_iter_def)
    then show ?thesis using assms(3) rest by auto
  next
    case False
    let ?\<sigma>2 = "\<sigma>\<lparr>open_heap := rest, visited := insert current (visited \<sigma>)\<rparr>"
    have "relax_all M C g current (get_next_states current M C cap) ?\<sigma>2 = Inr \<sigma>'"
      using assms(1,2) False ne
      by (simp add: astar_iter_def Let_def split: if_splits sum.splits)
    from relax_all_heap [OF this assms(3)] show ?thesis
      using rest by auto
  qed
qed

text \<open>
  C6 (as the code has it). Each pop takes from the frontier an entry that is least in the
  order of the tuples \<open>(f, g, state)\<close>, where \<open>f = g + h(state)\<close> for every entry: no entry
  in the frontier has a smaller \<open>f\<close>, and among the entries with the least \<open>f\<close> the one
  taken has the least \<open>g\<close>, and among those the least state; the order of insertion plays
  no part. With a boat for at most two and at most \<open>2^53\<close> people, the \<open>f\<close> of a pop is
  at most the \<open>f\<close> of the next pop.
\<close>

theorem frontier_pop_least:
  assumes "reached M_total C_total (M_left, C_left, M_right, C_right, boat_position)
             goal_state boat_capacity \<sigma>"
    and "heappop (open_heap \<sigma>) = Inr ((f, g, current), rest)"
  shows "heuristic current M_total C_total = Inr (f - int g) \<and>
         (f, g, current) \<in> set (open_heap \<sigma>) \<and>
         rest = remove1 (f, g, current) (open_heap \<sigma>) \<and>
         (\<forall>(f', g', s') \<in> set (open_heap \<sigma>).
            heuristic s' M_total C_total = Inr (f' - int g') \<and>
            (f < f' \<or> f = f' \<and> (g < g' \<or> g = g' \<and> current \<le> s'))) \<and>
         (boat_capacity \<le> 2 \<and> \<bar>M_left + C_left\<bar> \<le> 2 ^ 53 \<and> M_total + C_total \<le> 2 ^ 53 \<and>
          astar_iter M_total C_total goal_state boat_capacity \<sigma> = Inl \<sigma>' \<and>
          heappop (open_heap \<sigma>') = Inr ((f', g', current'), rest') \<longrightarrow> f \<le> f')"
proof -
  let ?start = "(M_left, C_left, M_right, C_right, boat_position)"
  have inv: "search_inv M_total C_total boat_capacity ?start \<sigma>"
    using assms(1) by (rule reached_inv)
  have h: "heuristic s' M_total C_total = Inr (f' - int g')"
    if "(f', g', s') \<in> set (open_heap \<sigma>)" for f' g' s'
    using inv that unfolding search_inv_def by blast
  note pop = heappop_least [OF assms(2)]
  have mem: "(f, g, current) \<in> set (open_heap \<sigma>)"
    and rest: "rest = remove1 (f, g, current) (open_heap \<sigma>)"
    using pop by simp_all
  have le: "(f, g, current) \<le> (f', g', s')"
    if "(f', g', s') \<in> set (open_heap \<sigma>)" for f' g' s'
    using pop that by blast
  have least: "f < f' \<or> f = f' \<and> (g < g' \<or> g = g' \<and> current \<le> s')"
    if "(f', g', s') \<in> set (open_heap \<sigma>)" for f' g' s'
    using le [OF that] by (simp only: less_eq_prod_simp) (metis less_le)
  have mono: "f \<le> f'"
    if cap: "boat_capacity \<le> 2" and b: "\<bar>M_left + C_left\<bar> \<le> 2 ^ 53"
      and tot: "M_total + C_total \<le> 2 ^ 53"
      and it: "astar_iter M_total C_total goal_state boat_capacity \<sigma> = Inl \<sigma>'"
      and pop': "heappop (open_heap \<sigma>') = Inr ((f', g', current'), rest')"
  proof -
    have "(f', g', current') \<in> set (open_heap \<sigma>')"
      using heappop_least [OF pop'] by simp
    from astar_iter_heap [OF assms(2) it this] show ?thesis
    proof
      assume old: "(f', g', current') \<in> set (open_heap \<sigma>)"
      from least [OF old] show ?thesis by auto
    next
      assume new: "current' \<in> set (get_next_states current M_total C_total boat_capacity) \<and>
          g' = g + 1 \<and> heuristic current' M_total C_total = Inr (f' - int g')"
      obtain ml cl mr cr bp where c: "current = (ml, cl, mr, cr, bp)"
        by (cases current) auto
      have "current = ?start \<or> legal M_total C_total current"
        using inv mem by (rule entry_state)
      then have "\<bar>ml + cl\<bar> \<le> 2 ^ 53"
        using b legal_people [OF _ tot] unfolding c by auto
      with cap new obtain hs ht where
        "heuristic current M_total C_total = Inr hs"
        "heuristic current' M_total C_total = Inr ht" "hs \<le> ht + 1"
        unfolding c using heuristic_step [OF _ _ _ tot] by blast
      then show ?thesis
        using h [OF mem] new by simp
    qed
  qed
  show ?thesis
    using h [OF mem] mem rest h least mono by blast
qed

theorem frontier_pop_least_witness:
  "heuristic (0, 2, 2, 0, ''right'') 2 2 = Inr (2 - int 1)
   \<and> ((2::int) < 2 \<or> (2::int) = 2 \<and>
        ((1::nat) < 1 \<or> (1::nat) = 1 \<and> (0, 2, 2, 0, ''right'') \<le> ((2, 0, 0, 2, ''right'') :: state)))
   \<and> (2::int) \<le> 2"
proof -
  let ?s = "(2, 2, 0, 0, ''left'') :: state"
  let ?g = "(0, 0, 2, 2, ''right'') :: state"
  let ?heap = "[(3, 1, 2, 1, 0, 1, ''right''), (2, 1, 2, 0, 0, 2, ''right''),
        (2, 1, 1, 1, 1, 1, ''right''), (2, 1, 0, 2, 2, 0, ''right'')] :: entry list"
  have hs: "heuristic ?s 2 2 = Inr 2"
    by (simp add: heuristic_exact)
  have r0: "reached 2 2 ?s ?g 2 (astar_start ?s 2)"
    using hs by (rule reached.entry)
  have pop0: "heappop (open_heap (astar_start ?s 2)) = Inr ((2, 0, ?s), [])"
    by (simp add: astar_start_def heappush_def)
  obtain \<sigma>1 where it: "astar_iter 2 2 ?g 2 (astar_start ?s 2) = Inl \<sigma>1"
    and heap: "open_heap \<sigma>1 = ?heap"
    using first_pass_222 by (cases "astar_iter 2 2 ?g 2 (astar_start ?s 2)") auto
  have r1: "reached 2 2 ?s ?g 2 \<sigma>1"
    using r0 it by (rule reached.pass)
  have "heappop ?heap = Inr ((2, 1, 0, 2, 2, 0, ''right''),
      [(3, 1, 2, 1, 0, 1, ''right''), (2, 1, 2, 0, 0, 2, ''right''), (2, 1, 1, 1, 1, 1, ''right'')])"
    by code_simp
  then have pop1: "heappop (open_heap \<sigma>1) = Inr ((2, 1, 0, 2, 2, 0, ''right''),
      [(3, 1, 2, 1, 0, 1, ''right''), (2, 1, 2, 0, 0, 2, ''right''), (2, 1, 1, 1, 1, 1, ''right'')])"
    by (simp only: heap)
  note second = frontier_pop_least [OF r1 pop1]
  have in_heap: "(2, 1, 2, 0, 0, 2, ''right'') \<in> set (open_heap \<sigma>1)"
    by (simp add: heap)
  have a: "heuristic (0, 2, 2, 0, ''right'') 2 2 = Inr (2 - int 1)"
    using second by blast
  have b: "(2::int) < 2 \<or> (2::int) = 2 \<and>
        ((1::nat) < 1 \<or> (1::nat) = 1 \<and> (0, 2, 2, 0, ''right'') \<le> ((2, 0, 0, 2, ''right'') :: state))"
    using second in_heap by blast
  have c: "(2::int) \<le> 2"
    using frontier_pop_least [OF r0 pop0, of \<sigma>1 2 1 "(0, 2, 2, 0, ''right'')"
        "[(3, 1, 2, 1, 0, 1, ''right''), (2, 1, 2, 0, 0, 2, ''right''), (2, 1, 1, 1, 1, 1, ''right'')]"]
      it pop1
    by simp
  show ?thesis
    using a b c by blast
qed

theorem frontier_ties_counterexample:
  "(map_sum open_heap id
      (astar_iter 2 2 (0, 0, 2, 2, ''right'') 2 (astar_start (2, 2, 0, 0, ''left'') 2)) =
    Inl [(3, 1, 2, 1, 0, 1, ''right''), (2, 1, 2, 0, 0, 2, ''right''),
         (2, 1, 1, 1, 1, 1, ''right''), (2, 1, 0, 2, 2, 0, ''right'')]
    \<and> heappop [(3, 1, 2, 1, 0, 1, ''right''), (2, 1, 2, 0, 0, 2, ''right''),
         (2, 1, 1, 1, 1, 1, ''right''), (2, 1, 0, 2, 2, 0, ''right'')] =
      Inr ((2, 1, 0, 2, 2, 0, ''right''),
           [(3, 1, 2, 1, 0, 1, ''right''), (2, 1, 2, 0, 0, 2, ''right''),
            (2, 1, 1, 1, 1, 1, ''right'')]))
   \<and> (heuristic (0, 3, 0, 0, ''left'') 0 3 = Inr 2
    \<and> heappop (open_heap (astar_start (0, 3, 0, 0, ''left'') 2)) =
         Inr ((2, 0, 0, 3, 0, 0, ''left''), [])
    \<and> map_sum open_heap id
      (astar_iter 0 3 (0, 0, 0, 3, ''right'') 3 (astar_start (0, 3, 0, 0, ''left'') 2)) =
    Inl [(2, 1, 0, 2, 0, 1, ''right''), (2, 1, 0, 1, 0, 2, ''right''),
         (1, 1, 0, 0, 0, 3, ''right'')]
    \<and> heappop [(2, 1, 0, 2, 0, 1, ''right''), (2, 1, 0, 1, 0, 2, ''right''),
         (1, 1, 0, 0, 0, 3, ''right'')] =
      Inr ((1, 1, 0, 0, 0, 3, ''right''),
           [(2, 1, 0, 2, 0, 1, ''right''), (2, 1, 0, 1, 0, 2, ''right'')]))
   \<and> (heuristic (18014398509481990, 0, 0, 0, ''left'') 18014398509481990 0
         = Inr 9007199254740996
    \<and> heappop (open_heap (astar_start (18014398509481990, 0, 0, 0, ''left'') 9007199254740996)) =
         Inr ((9007199254740996, 0, 18014398509481990, 0, 0, 0, ''left''), [])
    \<and> map_sum open_heap id
      (astar_iter 18014398509481990 0 (0, 0, 18014398509481990, 0, ''right'') 2
         (astar_start (18014398509481990, 0, 0, 0, ''left'') 9007199254740996)) =
    Inl [(9007199254740995, 1, 18014398509481989, 0, 1, 0, ''right''),
         (9007199254740995, 1, 18014398509481988, 0, 2, 0, ''right'')]
    \<and> heappop [(9007199254740995, 1, 18014398509481989, 0, 1, 0, ''right''),
         (9007199254740995, 1, 18014398509481988, 0, 2, 0, ''right'')] =
      Inr ((9007199254740995, 1, 18014398509481988, 0, 2, 0, ''right''),
           [(9007199254740995, 1, 18014398509481989, 0, 1, 0, ''right'')]))"
proof (intro conjI)
  show "map_sum open_heap id
      (astar_iter 2 2 (0, 0, 2, 2, ''right'') 2 (astar_start (2, 2, 0, 0, ''left'') 2)) =
    Inl [(3, 1, 2, 1, 0, 1, ''right''), (2, 1, 2, 0, 0, 2, ''right''),
         (2, 1, 1, 1, 1, 1, ''right''), (2, 1, 0, 2, 2, 0, ''right'')]"
    by (rule first_pass_222)
qed code_simp+

section \<open>The heuristic\<close>

text \<open>The number of people on the left bank, and the side of the boat.\<close>

definition people_left :: "state \<Rightarrow> int" where
  "people_left s = (case s of (M_left, C_left, M_right, C_right, boat_pos) \<Rightarrow> M_left + C_left)"











section \<open>The solver and the route\<close>

text \<open>
  C2 (as the code has it). For two missionaries, two cannibals and a boat for two, from
  the default start, the solver returns the six states with the keys 0 to 5 (five
  crossings), the last one \<open>(0, 0, 2, 2, right)\<close>, and the count 10.
\<close>

theorem solve_2_2_2:
  "solve_missionaries_cannibals 2 2 2 None None None None ''left'' =
     Some (Inr \<lparr>solution_output = Some
        [(''0'', 2, 2, 0, 0, ''left''), (''1'', 1, 1, 1, 1, ''right''),
         (''2'', 2, 1, 0, 1, ''left''), (''3'', 0, 1, 2, 1, ''right''),
         (''4'', 0, 2, 2, 0, ''left''), (''5'', 0, 0, 2, 2, ''right'')],
       number_of_states = 10\<rparr>)"
  by code_simp

theorem solve_2_2_2_counterexample:
  "\<not> (\<exists>r p. solve_missionaries_cannibals 2 2 2 None None None None ''left'' = Some (Inr r) \<and>
         solution_output r = Some p \<and> length p = 5)"
proof -
  have "solve_missionaries_cannibals 2 2 2 None None None None ''left'' =
     Some (Inr \<lparr>solution_output = Some
        (map (\<lambda>(i, s). (str i, s)) (enumerate 0
          [(2, 2, 0, 0, ''left''), (1, 1, 1, 1, ''right''), (2, 1, 0, 1, ''left''),
           (0, 1, 2, 1, ''right''), (0, 2, 2, 0, ''left''), (0, 0, 2, 2, ''right'')])),
       number_of_states = 10\<rparr>)"
    by (simp add: solve_missionaries_cannibals_def astar_222)
  then show ?thesis by auto
qed




end
